theory Spec2Isabelle
  imports Main "HOL-Library.Word"
begin

unbundle bit_operations_syntax

section \<open>Error codes\<close>

text \<open>
  The kinds of \<open>mk_error_t\<close> that \<open>mk_error_string\<close> of core.c distinguishes.
  \<open>MK_ESUCCESS\<close> is the zero value: the C test \<open>if ((err = f(...)))\<close> is the test
  \<open>err \<noteq> MK_ESUCCESS\<close>.
\<close>

datatype mk_error_t =
    MK_ESUCCESS
  | MK_ECLIENT_ERROR
  | MK_ECLIENT_INVALID_RESULT
  | MK_EINTERNAL_ERROR
  | MK_EINVAL
  | MK_EINVALID_DATA
  | MK_ENOT_FOUND
  | MK_EUNAVAILABLE
  | MK_EOUT_OF_RANGE
  | MK_EOVERFLOW
  | MK_EUNDERFLOW
  | MK_EBAD_ACCESS

section \<open>Addresses, sizes and offsets\<close>

text \<open>
  The three quantities are unsigned integers of one width, 64 bits (their typedefs are
  in a header that is not part of the sources; the spec gives the width). Word arithmetic
  wraps around modulo \<open>2 ^ 64\<close>, as the C arithmetic on \<open>uint64_t\<close> does.
\<close>

type_synonym mk_vm_address_t = "64 word"
type_synonym mk_vm_size_t = "64 word"
type_synonym mk_vm_offset_t = "64 word"

text \<open>
  Modelled from the spec: the macros \<open>MK_VM_ADDRESS_MAX\<close> and \<open>MK_VM_SIZE_MAX\<close> are
  declared in a header that is not part of the sources. The spec calls them the maximum
  representable address and size of the unsigned fixed-width types, so each is the
  all-ones word.
\<close>

definition MK_VM_ADDRESS_MAX :: mk_vm_address_t where
  "MK_VM_ADDRESS_MAX = - 1"

definition MK_VM_SIZE_MAX :: mk_vm_size_t where
  "MK_VM_SIZE_MAX = - 1"

section \<open>Type safe operations\<close>

text \<open>
  An out-parameter \<open>mk_vm_address_t *result\<close> is modelled by the cell it points to:
  \<open>None\<close> is the null pointer, \<open>Some v\<close> a pointer to a cell that holds \<open>v\<close>. Each
  operation returns its error code together with the cell after the call.
\<close>

definition mk_vm_address_apply_offset ::
  "mk_vm_address_t \<Rightarrow> mk_vm_offset_t \<Rightarrow> mk_vm_address_t option
    \<Rightarrow> mk_error_t \<times> mk_vm_address_t option" where
  "mk_vm_address_apply_offset addr offset result =
     (if MK_VM_ADDRESS_MAX - offset < addr then (MK_EOVERFLOW, result)
      else (MK_ESUCCESS,
            (case result of None \<Rightarrow> None | Some _ \<Rightarrow> Some (addr + offset))))"

definition mk_vm_address_add ::
  "mk_vm_address_t \<Rightarrow> mk_vm_address_t \<Rightarrow> mk_vm_address_t option
    \<Rightarrow> mk_error_t \<times> mk_vm_address_t option" where
  "mk_vm_address_add addr1 addr2 result =
     (if MK_VM_ADDRESS_MAX - addr2 < addr1 then (MK_EOVERFLOW, result)
      else (MK_ESUCCESS,
            (case result of None \<Rightarrow> None | Some _ \<Rightarrow> Some (addr1 + addr2))))"

definition mk_vm_address_substract ::
  "mk_vm_address_t \<Rightarrow> mk_vm_address_t \<Rightarrow> mk_vm_address_t option
    \<Rightarrow> mk_error_t \<times> mk_vm_address_t option" where
  "mk_vm_address_substract left right result =
     (if right > left then (MK_EUNDERFLOW, result)
      else (MK_ESUCCESS,
            (case result of None \<Rightarrow> None | Some _ \<Rightarrow> Some (left - right))))"

definition mk_vm_address_check_length :: "mk_vm_address_t \<Rightarrow> mk_vm_size_t \<Rightarrow> mk_error_t" where
  "mk_vm_address_check_length addr len =
     (if MK_VM_SIZE_MAX - len < addr then MK_EOVERFLOW else MK_ESUCCESS)"

section \<open>Ranges\<close>

text \<open>
  The field \<open>length\<close> of the C struct is \<open>length_sz\<close> here: \<open>length\<close> is the length of
  a list in HOL.
\<close>

record mk_vm_range_t =
  location :: mk_vm_address_t
  length_sz :: mk_vm_size_t

definition mk_vm_range_make :: "mk_vm_address_t \<Rightarrow> mk_vm_size_t \<Rightarrow> mk_vm_range_t" where
  "mk_vm_range_make loc len = \<lparr>location = loc, length_sz = len\<rparr>"

text \<open>
  \<open>mk_vm_range_contains_address\<close> passes \<open>&address\<close> as the result pointer: the
  local variable is overwritten with the sum before the comparisons read it. The
  comparisons read the variable after the call, which is the content of the cell; a
  call that writes nothing leaves the variable as it was.
\<close>

definition mk_vm_range_contains_address ::
  "mk_vm_range_t \<Rightarrow> mk_vm_offset_t \<Rightarrow> mk_vm_address_t \<Rightarrow> mk_error_t" where
  "mk_vm_range_contains_address rng offset address =
     (case mk_vm_address_apply_offset address offset (Some address) of
        (err, cell) \<Rightarrow>
          if err \<noteq> MK_ESUCCESS then err
          else (let address' = (case cell of None \<Rightarrow> address | Some v \<Rightarrow> v)
                in if MK_VM_SIZE_MAX - length_sz rng < location rng then MK_EOVERFLOW
                   else if address' < location rng
                           \<or> address' \<ge> location rng + length_sz rng
                        then MK_ENOT_FOUND
                   else MK_ESUCCESS))"

definition mk_vm_range_contains_range ::
  "mk_vm_range_t \<Rightarrow> mk_vm_range_t \<Rightarrow> bool \<Rightarrow> mk_error_t" where
  "mk_vm_range_contains_range outer_range inner_range partial =
     (if MK_VM_SIZE_MAX - length_sz outer_range < location outer_range then MK_EOVERFLOW
      else if MK_VM_SIZE_MAX - length_sz inner_range < location inner_range then MK_EOVERFLOW
      else if partial then
        (if location inner_range < location outer_range
            \<and> location inner_range + length_sz inner_range < location outer_range
         then MK_ENOT_FOUND
         else if location inner_range > location outer_range + length_sz outer_range
         then MK_ENOT_FOUND
         else MK_ESUCCESS)
      else
        (if location inner_range < location outer_range then MK_ENOT_FOUND
         else if location inner_range + length_sz inner_range
                  > location outer_range + length_sz outer_range
         then MK_ENOT_FOUND
         else MK_ESUCCESS))"

section \<open>Byte order\<close>

text \<open>
  Modelled from the spec: \<open>OSSwapInt16\<close>, \<open>OSSwapInt32\<close> and \<open>OSSwapInt64\<close> are macros
  of a platform header that is not part of the sources. The spec describes the swapped
  byte order as byte reversal of a 16, 32 or 64 bit value; the definitions below write
  that reversal with the masks and shifts of the usual C macro: each byte is selected
  with a mask and moved to the mirrored position.
\<close>

definition OSSwapInt16 :: "16 word \<Rightarrow> 16 word" where
  "OSSwapInt16 x = drop_bit 8 (x AND 0xff00) OR push_bit 8 (x AND 0x00ff)"

definition OSSwapInt32 :: "32 word \<Rightarrow> 32 word" where
  "OSSwapInt32 x =
     drop_bit 24 (x AND 0xff000000) OR drop_bit 8 (x AND 0x00ff0000)
     OR push_bit 8 (x AND 0x0000ff00) OR push_bit 24 (x AND 0x000000ff)"

definition OSSwapInt64 :: "64 word \<Rightarrow> 64 word" where
  "OSSwapInt64 x =
     drop_bit 56 (x AND 0xff00000000000000) OR drop_bit 40 (x AND 0x00ff000000000000)
     OR drop_bit 24 (x AND 0x0000ff0000000000) OR drop_bit 8 (x AND 0x000000ff00000000)
     OR push_bit 8 (x AND 0x00000000ff000000) OR push_bit 24 (x AND 0x0000000000ff0000)
     OR push_bit 40 (x AND 0x000000000000ff00) OR push_bit 56 (x AND 0x00000000000000ff)"

text \<open>
  The static functions of core.c. Their C names start with an underscore
  (\<open>_mk_swap16\<close>, \<open>_mk_nswap16\<close>, ...), which an identifier cannot do here, so the
  underscore is dropped.
\<close>

definition mk_swap16 :: "16 word \<Rightarrow> 16 word" where
  "mk_swap16 input = OSSwapInt16 input"

definition mk_nswap16 :: "16 word \<Rightarrow> 16 word" where
  "mk_nswap16 input = input"

definition mk_swap32 :: "32 word \<Rightarrow> 32 word" where
  "mk_swap32 input = OSSwapInt32 input"

definition mk_nswap32 :: "32 word \<Rightarrow> 32 word" where
  "mk_nswap32 input = input"

definition mk_swap64 :: "64 word \<Rightarrow> 64 word" where
  "mk_swap64 input = OSSwapInt64 input"

definition mk_nswap64 :: "64 word \<Rightarrow> 64 word" where
  "mk_nswap64 input = input"

text \<open>
  \<open>_mk_swap\<close> works on caller-owned bytes through a pointer. The bytes live in a store
  from addresses to bytes; the pointer \<open>input\<close> is an address, and the function returns
  the pointer together with the store after the loop. Addresses, \<open>length\<close> and the loop
  counter are natural numbers: the counter stays below \<open>length / 2\<close> and
  \<open>length - i - 1\<close> is taken only for \<open>i < length / 2\<close>, so nothing in the loop wraps
  around for a \<open>size_t\<close> of any width.
\<close>

type_synonym memory = "nat \<Rightarrow> 8 word"

function mk_swap_loop :: "nat \<Rightarrow> nat \<Rightarrow> nat \<Rightarrow> memory \<Rightarrow> memory" where
  "mk_swap_loop input len i mem =
     (if i < len div 2 then
        (let temp = mem (input + i);
             mem1 = mem (input + i := mem (input + (len - i - 1)));
             mem2 = mem1 (input + (len - i - 1) := temp)
         in mk_swap_loop input len (i + 1) mem2)
      else mem)"
  by pat_completeness auto
termination
  by (relation "measure (\<lambda>(input, len, i, mem). len div 2 - i)") auto

declare mk_swap_loop.simps [simp del]

definition mk_swap :: "memory \<Rightarrow> nat \<Rightarrow> nat \<Rightarrow> nat \<times> memory" where
  "mk_swap mem input len = (input, mk_swap_loop input len 0 mem)"

definition mk_nswap :: "memory \<Rightarrow> nat \<Rightarrow> nat \<Rightarrow> nat \<times> memory" where
  "mk_nswap mem input len = (input, mem)"

text \<open>
  The struct \<open>mk_byteorder_t\<close> is declared in a header that is not part of the sources;
  its four members are named after the spec (swap16, swap32, swap64 and the buffer swap)
  and come in the order of the two initialisers of core.c.
\<close>

record mk_byteorder_t =
  swap16 :: "16 word \<Rightarrow> 16 word"
  swap32 :: "32 word \<Rightarrow> 32 word"
  swap64 :: "64 word \<Rightarrow> 64 word"
  swap_buffer :: "memory \<Rightarrow> nat \<Rightarrow> nat \<Rightarrow> nat \<times> memory"

definition mk_byteorder_direct :: mk_byteorder_t where
  "mk_byteorder_direct =
     \<lparr>swap16 = mk_nswap16, swap32 = mk_nswap32, swap64 = mk_nswap64, swap_buffer = mk_nswap\<rparr>"

definition mk_byteorder_swapped :: mk_byteorder_t where
  "mk_byteorder_swapped =
     \<lparr>swap16 = mk_swap16, swap32 = mk_swap32, swap64 = mk_swap64, swap_buffer = mk_swap\<rparr>"

section \<open>Classes and runtime\<close>

text \<open>
  Descriptors (\<open>struct _mk_type_vtable\<close>) are compared by address, so they live in a
  store from addresses to descriptors and a pointer is an address, \<open>NULL\<close> being 0. Two
  descriptors with the same contents at different addresses are different types. A
  function slot is \<open>None\<close> for a null function pointer. The slot \<open>copy_description\<close> is
  left out: its root implementation prints a pointer with \<open>snprintf\<close>, and no operation
  modelled here reads the slot.
\<close>

type_synonym mk_vtable_ptr = nat
type_synonym mk_type_ref = nat
type_synonym mk_context_ptr = nat

definition NULL :: nat where
  "NULL = 0"

record mk_type_vtable =
  super :: mk_vtable_ptr
  name :: "string option"
  get_context :: "(mk_type_ref \<Rightarrow> mk_context_ptr) option"
  equal_fn :: "(mk_type_ref \<Rightarrow> mk_type_ref \<Rightarrow> bool) option"

definition mk_type_get_context_default :: "mk_type_ref \<Rightarrow> mk_context_ptr" where
  "mk_type_get_context_default self = NULL"

definition mk_type_equal_default :: "mk_type_ref \<Rightarrow> mk_type_ref \<Rightarrow> bool" where
  "mk_type_equal_default self other \<longleftrightarrow> self = other"

definition mk_type_class :: mk_type_vtable where
  "mk_type_class =
     \<lparr>super = NULL, name = Some '''',
      get_context = Some mk_type_get_context_default,
      equal_fn = Some mk_type_equal_default\<rparr>"

text \<open>
  The loop of \<open>mk_type_is_kind_of\<close> follows \<open>super\<close> until it meets \<open>type\<close> or
  \<open>NULL\<close>. On a cyclic chain that does not hold \<open>type\<close> it runs forever: the result
  \<open>None\<close> stands for a call that does not return.
\<close>

partial_function (option) mk_type_is_kind_of_loop ::
  "(mk_vtable_ptr \<Rightarrow> mk_type_vtable) \<Rightarrow> mk_vtable_ptr \<Rightarrow> mk_vtable_ptr \<Rightarrow> bool option" where
  "mk_type_is_kind_of_loop vtables vtable type =
     (if vtable \<noteq> NULL then
        (if vtable = type then Some True
         else mk_type_is_kind_of_loop vtables (super (vtables vtable)) type)
      else Some False)"

text \<open>
  A typed handle points to an object that starts with a \<open>_mk_runtime_base_t\<close>, whose
  only member read here is the descriptor pointer. The handle is modelled by that
  object.
\<close>

record mk_runtime_base_t =
  vtable :: mk_vtable_ptr

definition mk_type_is :: "mk_runtime_base_t \<Rightarrow> mk_vtable_ptr \<Rightarrow> bool" where
  "mk_type_is mk type \<longleftrightarrow> vtable mk = type"

definition mk_type_is_kind_of ::
  "(mk_vtable_ptr \<Rightarrow> mk_type_vtable) \<Rightarrow> mk_runtime_base_t \<Rightarrow> mk_vtable_ptr \<Rightarrow> bool option" where
  "mk_type_is_kind_of vtables mk type = mk_type_is_kind_of_loop vtables (vtable mk) type"

text \<open>
  The descriptor chain of a pointer: the list of the addresses met by following
  \<open>super\<close> up to \<open>NULL\<close>. A pointer has a chain exactly when the walk is finite.
\<close>

inductive vtable_chain ::
  "(mk_vtable_ptr \<Rightarrow> mk_type_vtable) \<Rightarrow> mk_vtable_ptr \<Rightarrow> mk_vtable_ptr list \<Rightarrow> bool"
  for vtables where
    chain_null: "vtable_chain vtables NULL []"
  | chain_step: "p \<noteq> NULL \<Longrightarrow> vtable_chain vtables (super (vtables p)) ps
      \<Longrightarrow> vtable_chain vtables p (p # ps)"

code_pred vtable_chain .

text \<open>
  A small hierarchy for concrete checks: the root \<open>mk_type_class\<close> at address 1 and
  two descriptors at addresses 2 and 3 whose parent is the root.
\<close>

definition example_vtables :: "mk_vtable_ptr \<Rightarrow> mk_type_vtable" where
  "example_vtables p =
     (if p = 1 then mk_type_class
      else if p = 2 then \<lparr>super = 1, name = Some ''A'', get_context = None, equal_fn = None\<rparr>
      else \<lparr>super = 1, name = None, get_context = None, equal_fn = None\<rparr>)"

section \<open>Mathematical readings used in the statements\<close>

text \<open>
  The sum \<open>location + length\<close> of a range over the natural numbers, where nothing
  wraps, and the statement that it does not exceed the largest representable value.
\<close>

definition range_end :: "mk_vm_range_t \<Rightarrow> nat" where
  "range_end r = unat (location r) + unat (length_sz r)"

definition range_fits :: "mk_vm_range_t \<Rightarrow> bool" where
  "range_fits r \<longleftrightarrow> range_end r \<le> unat MK_VM_SIZE_MAX"

text \<open>
  The position that mirrors address \<open>a\<close> in the span of \<open>len\<close> bytes at \<open>input\<close>,
  and the store in which the part of the span from offset \<open>i\<close> to offset \<open>len - i\<close>
  is reversed.
\<close>

definition mirror :: "nat \<Rightarrow> nat \<Rightarrow> nat \<Rightarrow> nat" where
  "mirror input len a = input + (len - 1 - (a - input))"

definition mirrored :: "nat \<Rightarrow> nat \<Rightarrow> nat \<Rightarrow> memory \<Rightarrow> memory" where
  "mirrored input len i mem =
     (\<lambda>a. if input + i \<le> a \<and> a < input + (len - i)
          then mem (mirror input len a) else mem a)"

section \<open>Facts about the overflow tests\<close>

lemma unat_max_word64: "unat (- 1 :: 64 word) = 2 ^ 64 - 1"
  by (simp add: unsigned_minus_1_eq_mask mask_eq_exp_minus_1)

lemma unat_MK_VM_ADDRESS_MAX: "unat MK_VM_ADDRESS_MAX = 2 ^ 64 - 1"
  by (simp add: MK_VM_ADDRESS_MAX_def unat_max_word64)

lemma unat_MK_VM_SIZE_MAX: "unat MK_VM_SIZE_MAX = 2 ^ 64 - 1"
  by (simp add: MK_VM_SIZE_MAX_def unat_max_word64)

lemma max_minus_less_iff:
  fixes a b :: "64 word"
  shows "(- 1 - b < a) \<longleftrightarrow> 2 ^ 64 \<le> unat a + unat b"
proof -
  have "b \<le> - 1" by simp
  then have "unat (- 1 - b) = unat (- 1 :: 64 word) - unat b"
    by (rule unat_sub)
  then have "unat (- 1 - b) = 2 ^ 64 - 1 - unat b"
    by (simp add: unat_max_word64)
  moreover have "unat b < 2 ^ 64"
    using unsigned_less [of b] by simp
  ultimately show ?thesis
    by (simp add: word_less_nat_alt) arith
qed

lemma unat_le_max_word64: "unat (a :: 64 word) \<le> 2 ^ 64 - 1"
proof -
  have "unat a < 2 ^ 64"
    using unsigned_less [of a] by simp
  then show ?thesis by simp
qed

lemma address_overflow_test:
  "(MK_VM_ADDRESS_MAX - b < a) \<longleftrightarrow> \<not> unat a + unat b \<le> unat MK_VM_ADDRESS_MAX"
  unfolding unat_MK_VM_ADDRESS_MAX
  by (simp add: MK_VM_ADDRESS_MAX_def max_minus_less_iff) arith

lemma size_overflow_test:
  "(MK_VM_SIZE_MAX - b < a) \<longleftrightarrow> \<not> unat a + unat b \<le> unat MK_VM_SIZE_MAX"
  unfolding unat_MK_VM_SIZE_MAX
  by (simp add: MK_VM_SIZE_MAX_def max_minus_less_iff) arith

lemma unat_add_exact:
  fixes a b :: "64 word"
  assumes "unat a + unat b \<le> 2 ^ 64 - 1"
  shows "unat (a + b) = unat a + unat b"
proof -
  from assms have "unat a + unat b < 2 ^ 64" by simp
  then show ?thesis by (simp add: unat_word_ariths)
qed

lemma range_overflow_test:
  "(MK_VM_SIZE_MAX - length_sz r < location r) \<longleftrightarrow> \<not> range_fits r"
  by (simp add: size_overflow_test range_fits_def range_end_def)

lemma unat_range_end:
  "range_fits r \<Longrightarrow> unat (location r + length_sz r) = range_end r"
  by (simp add: range_fits_def range_end_def unat_MK_VM_SIZE_MAX unat_add_exact)

section \<open>Checked arithmetic\<close>

lemma apply_offset_success_iff:
  "fst (mk_vm_address_apply_offset a off r) = MK_ESUCCESS
     \<longleftrightarrow> unat a + unat off \<le> unat MK_VM_ADDRESS_MAX"
  by (simp add: mk_vm_address_apply_offset_def address_overflow_test)

lemma apply_offset_stores_sum:
  assumes "unat a + unat off \<le> unat MK_VM_ADDRESS_MAX"
  shows "mk_vm_address_apply_offset a off (Some v) = (MK_ESUCCESS, Some (a + off))"
    and "unat (a + off) = unat a + unat off"
  using assms
  by (simp_all add: mk_vm_address_apply_offset_def address_overflow_test
      unat_MK_VM_ADDRESS_MAX unat_add_exact)

lemma apply_offset_overflow:
  assumes "\<not> unat a + unat off \<le> unat MK_VM_ADDRESS_MAX"
  shows "mk_vm_address_apply_offset a off r = (MK_EOVERFLOW, r)"
  using assms by (simp add: mk_vm_address_apply_offset_def address_overflow_test)

text \<open>
  Claim C1. For every address \<open>a\<close> and offset \<open>off\<close>, \<open>mk_vm_address_apply_offset\<close>
  returns success exactly when the sum of the two over the natural numbers is at most
  \<open>MK_VM_ADDRESS_MAX\<close>; on success the value stored through a non-null result pointer
  is that sum, without wrap-around. In the other case the call returns
  \<open>MK_EOVERFLOW\<close> and leaves the cell as it was.
\<close>

theorem mk_vm_address_apply_offset_exact:
  "(fst (mk_vm_address_apply_offset a off r) = MK_ESUCCESS
      \<longleftrightarrow> unat a + unat off \<le> unat MK_VM_ADDRESS_MAX)
   \<and> (fst (mk_vm_address_apply_offset a off (Some v)) = MK_ESUCCESS
      \<longrightarrow> (\<exists>s. snd (mk_vm_address_apply_offset a off (Some v)) = Some s
             \<and> unat s = unat a + unat off))
   \<and> (fst (mk_vm_address_apply_offset a off r) \<noteq> MK_ESUCCESS
      \<longrightarrow> mk_vm_address_apply_offset a off r = (MK_EOVERFLOW, r))"
proof (intro conjI impI)
  show "fst (mk_vm_address_apply_offset a off r) = MK_ESUCCESS
      \<longleftrightarrow> unat a + unat off \<le> unat MK_VM_ADDRESS_MAX"
    by (rule apply_offset_success_iff)
next
  assume "fst (mk_vm_address_apply_offset a off (Some v)) = MK_ESUCCESS"
  then have fits: "unat a + unat off \<le> unat MK_VM_ADDRESS_MAX"
    by (simp add: apply_offset_success_iff)
  show "\<exists>s. snd (mk_vm_address_apply_offset a off (Some v)) = Some s
             \<and> unat s = unat a + unat off"
    using apply_offset_stores_sum(1) [OF fits, of v] apply_offset_stores_sum(2) [OF fits]
    by simp
next
  assume "fst (mk_vm_address_apply_offset a off r) \<noteq> MK_ESUCCESS"
  then have "\<not> unat a + unat off \<le> unat MK_VM_ADDRESS_MAX"
    by (simp add: apply_offset_success_iff)
  then show "mk_vm_address_apply_offset a off r = (MK_EOVERFLOW, r)"
    by (rule apply_offset_overflow)
qed

theorem mk_vm_address_apply_offset_exact_witness:
  "fst (mk_vm_address_apply_offset 10 5 (Some 0)) = MK_ESUCCESS
   \<and> (\<exists>s. snd (mk_vm_address_apply_offset 10 5 (Some 0)) = Some s
          \<and> unat s = unat (10 :: mk_vm_address_t) + unat (5 :: mk_vm_offset_t))
   \<and> fst (mk_vm_address_apply_offset (- 1) 1 (Some 7)) \<noteq> MK_ESUCCESS
   \<and> mk_vm_address_apply_offset (- 1) 1 (Some 7) = (MK_EOVERFLOW, Some 7)"
proof -
  have ok: "fst (mk_vm_address_apply_offset 10 5 (Some 0)) = MK_ESUCCESS"
    by (simp add: mk_vm_address_apply_offset_def MK_VM_ADDRESS_MAX_def)
  have bad: "fst (mk_vm_address_apply_offset (- 1) 1 (Some 7)) \<noteq> MK_ESUCCESS"
    by (simp add: mk_vm_address_apply_offset_def MK_VM_ADDRESS_MAX_def)
  from mk_vm_address_apply_offset_exact [of 10 5 "Some 0" 0] ok
  have stored: "\<exists>s. snd (mk_vm_address_apply_offset 10 5 (Some 0)) = Some s
          \<and> unat s = unat (10 :: mk_vm_address_t) + unat (5 :: mk_vm_offset_t)"
    by blast
  from mk_vm_address_apply_offset_exact [of "- 1" 1 "Some 7" 0] bad
  have "mk_vm_address_apply_offset (- 1) 1 (Some 7) = (MK_EOVERFLOW, Some 7)"
    by blast
  with ok bad stored show ?thesis by blast
qed

lemma substract_underflow_iff:
  "fst (mk_vm_address_substract a b r) = MK_EUNDERFLOW \<longleftrightarrow> b > a"
  by (simp add: mk_vm_address_substract_def)

lemma substract_success_iff:
  "fst (mk_vm_address_substract a b r) = MK_ESUCCESS \<longleftrightarrow> \<not> b > a"
  by (simp add: mk_vm_address_substract_def)

lemma substract_difference:
  assumes "\<not> b > a"
  shows "mk_vm_address_substract a b (Some v) = (MK_ESUCCESS, Some (a - b))"
    and "unat (a - b) + unat b = unat a"
proof -
  from assms have le: "b \<le> a" by simp
  show "mk_vm_address_substract a b (Some v) = (MK_ESUCCESS, Some (a - b))"
    using assms by (simp add: mk_vm_address_substract_def)
  have "unat (a - b) = unat a - unat b"
    using le by (rule unat_sub)
  moreover have "unat b \<le> unat a"
    using le by (simp add: word_le_nat_alt)
  ultimately show "unat (a - b) + unat b = unat a" by simp
qed

lemma add_back:
  assumes "\<not> b > a"
  shows "mk_vm_address_add (a - b) b (Some w) = (MK_ESUCCESS, Some a)"
proof -
  have "unat (a - b) + unat b = unat a"
    using assms by (rule substract_difference(2))
  moreover have "unat a \<le> unat MK_VM_ADDRESS_MAX"
    by (simp only: unat_MK_VM_ADDRESS_MAX unat_le_max_word64)
  ultimately have "\<not> MK_VM_ADDRESS_MAX - b < a - b"
    by (simp add: address_overflow_test)
  then show ?thesis
    by (simp add: mk_vm_address_add_def)
qed

text \<open>
  Claim C6. For every pair of addresses \<open>a\<close> and \<open>b\<close>, \<open>mk_vm_address_substract\<close>
  fails with \<open>MK_EUNDERFLOW\<close> exactly when \<open>b > a\<close>; otherwise it succeeds and stores
  the difference \<open>d\<close> with \<open>d + b = a\<close> over the natural numbers. Whenever the
  subtraction succeeds and stores \<open>d\<close>, \<open>mk_vm_address_add\<close> of \<open>d\<close> and \<open>b\<close> succeeds
  and stores \<open>a\<close>.
\<close>

theorem mk_vm_address_substract_add_roundtrip:
  "(fst (mk_vm_address_substract a b r) = MK_EUNDERFLOW \<longleftrightarrow> b > a)
   \<and> (fst (mk_vm_address_substract a b r) = MK_ESUCCESS \<longleftrightarrow> \<not> b > a)
   \<and> (\<not> b > a \<longrightarrow>
        mk_vm_address_substract a b (Some v) = (MK_ESUCCESS, Some (a - b))
        \<and> unat (a - b) + unat b = unat a)
   \<and> (\<forall>d. mk_vm_address_substract a b (Some v) = (MK_ESUCCESS, Some d) \<longrightarrow>
        mk_vm_address_add d b (Some w) = (MK_ESUCCESS, Some a))"
proof (intro conjI impI allI)
  show "fst (mk_vm_address_substract a b r) = MK_EUNDERFLOW \<longleftrightarrow> b > a"
    by (rule substract_underflow_iff)
  show "fst (mk_vm_address_substract a b r) = MK_ESUCCESS \<longleftrightarrow> \<not> b > a"
    by (rule substract_success_iff)
next
  assume "\<not> b > a"
  then show "mk_vm_address_substract a b (Some v) = (MK_ESUCCESS, Some (a - b))"
    by (rule substract_difference(1))
next
  assume "\<not> b > a"
  then show "unat (a - b) + unat b = unat a"
    by (rule substract_difference(2))
next
  fix d
  assume ok: "mk_vm_address_substract a b (Some v) = (MK_ESUCCESS, Some d)"
  then have "fst (mk_vm_address_substract a b (Some v)) = MK_ESUCCESS" by simp
  then have le: "\<not> b > a" by (simp add: substract_success_iff)
  with ok have "d = a - b"
    by (simp add: substract_difference(1))
  with le show "mk_vm_address_add d b (Some w) = (MK_ESUCCESS, Some a)"
    by (simp add: add_back)
qed

theorem mk_vm_address_substract_add_roundtrip_witness:
  "\<not> (3 :: mk_vm_address_t) > 10
   \<and> mk_vm_address_substract 10 3 (Some 0) = (MK_ESUCCESS, Some 7)
   \<and> mk_vm_address_add 7 3 (Some 0) = (MK_ESUCCESS, Some 10)
   \<and> fst (mk_vm_address_substract 3 10 (Some 0)) = MK_EUNDERFLOW"
proof -
  have le: "\<not> (3 :: mk_vm_address_t) > 10" by simp
  have gt: "(10 :: mk_vm_address_t) > 3" by simp
  note inst = mk_vm_address_substract_add_roundtrip [of 10 3 "Some 0" 0 0]
  from inst le have sub: "mk_vm_address_substract 10 3 (Some 0) = (MK_ESUCCESS, Some 7)"
    by simp
  from inst sub have add: "mk_vm_address_add 7 3 (Some 0) = (MK_ESUCCESS, Some 10)"
    by blast
  from mk_vm_address_substract_add_roundtrip [of 3 10 "Some 0" 0 0] gt
  have "fst (mk_vm_address_substract 3 10 (Some 0)) = MK_EUNDERFLOW"
    by blast
  with le sub add show ?thesis by blast
qed

section \<open>Range containment\<close>

lemma contains_range_overflow:
  "\<not> range_fits outer \<or> \<not> range_fits inner
    \<Longrightarrow> mk_vm_range_contains_range outer inner partial = MK_EOVERFLOW"
  by (auto simp: mk_vm_range_contains_range_def range_overflow_test)

lemma contains_range_strict_nat:
  assumes "range_fits outer" and "range_fits inner"
  shows "mk_vm_range_contains_range outer inner False =
     (if unat (location outer) \<le> unat (location inner) \<and> range_end inner \<le> range_end outer
      then MK_ESUCCESS else MK_ENOT_FOUND)"
proof -
  have tests: "\<not> MK_VM_SIZE_MAX - length_sz outer < location outer"
    "\<not> MK_VM_SIZE_MAX - length_sz inner < location inner"
    using assms by (simp_all add: range_overflow_test)
  have "mk_vm_range_contains_range outer inner False =
     (if location inner < location outer then MK_ENOT_FOUND
      else if location inner + length_sz inner > location outer + length_sz outer
      then MK_ENOT_FOUND else MK_ESUCCESS)"
    by (simp only: mk_vm_range_contains_range_def tests if_False)
  then show ?thesis
    using assms by (simp add: word_less_nat_alt unat_range_end not_less)
qed

lemma contains_range_partial_nat:
  assumes "range_fits outer" and "range_fits inner"
  shows "mk_vm_range_contains_range outer inner True =
     (if (unat (location inner) < unat (location outer) \<and> range_end inner < unat (location outer))
         \<or> unat (location inner) > range_end outer
      then MK_ENOT_FOUND else MK_ESUCCESS)"
proof -
  have tests: "\<not> MK_VM_SIZE_MAX - length_sz outer < location outer"
    "\<not> MK_VM_SIZE_MAX - length_sz inner < location inner"
    using assms by (simp_all add: range_overflow_test)
  have "mk_vm_range_contains_range outer inner True =
     (if location inner < location outer
         \<and> location inner + length_sz inner < location outer
      then MK_ENOT_FOUND
      else if location inner > location outer + length_sz outer
      then MK_ENOT_FOUND else MK_ESUCCESS)"
    by (simp only: mk_vm_range_contains_range_def tests if_False if_True)
  then show ?thesis
    using assms by (simp add: word_less_nat_alt unat_range_end)
qed

lemma contains_address_nat:
  assumes "unat a + unat off \<le> unat MK_VM_ADDRESS_MAX" and "range_fits r"
  shows "mk_vm_range_contains_address r off a =
     (if unat (location r) \<le> unat a + unat off \<and> unat a + unat off < range_end r
      then MK_ESUCCESS else MK_ENOT_FOUND)"
proof -
  have test: "\<not> MK_VM_SIZE_MAX - length_sz r < location r"
    using assms(2) by (simp add: range_overflow_test)
  have "mk_vm_range_contains_address r off a =
     (if a + off < location r \<or> a + off \<ge> location r + length_sz r
      then MK_ENOT_FOUND else MK_ESUCCESS)"
    by (simp add: mk_vm_range_contains_address_def apply_offset_stores_sum(1) [OF assms(1)]
        test)
  then show ?thesis
    using assms(2) apply_offset_stores_sum(2) [OF assms(1)]
    by (simp add: word_less_nat_alt word_le_nat_alt unat_range_end not_less not_le)
qed

lemma range_fits_make_small:
  "range_fits (mk_vm_range_make 0 10)" "range_fits (mk_vm_range_make 0 11)"
  "range_fits (mk_vm_range_make 5 100)" "range_fits (mk_vm_range_make 20 5)"
  "range_fits (mk_vm_range_make 10 5)"
  by (simp_all add: range_fits_def range_end_def mk_vm_range_make_def unat_MK_VM_SIZE_MAX)

text \<open>
  Claim C2. For every outer and inner range whose sums \<open>location + length\<close> do not
  overflow, \<open>mk_vm_range_contains_range\<close> with \<open>partial = false\<close> returns success
  exactly when the inner range is fully enclosed (its location is at least the outer
  location and its end is at most the outer end), and \<open>MK_ENOT_FOUND\<close> otherwise. With
  the outer range \<open>make(0, 10)\<close>, the inner range \<open>make(0, 11)\<close> gives
  \<open>MK_ENOT_FOUND\<close> and the inner range \<open>make(0, 10)\<close> gives success.
\<close>

theorem mk_vm_range_contains_range_strict:
  "(range_fits outer \<and> range_fits inner \<longrightarrow>
      (mk_vm_range_contains_range outer inner False = MK_ESUCCESS
         \<longleftrightarrow> unat (location outer) \<le> unat (location inner)
             \<and> range_end inner \<le> range_end outer)
      \<and> (mk_vm_range_contains_range outer inner False \<noteq> MK_ESUCCESS
         \<longrightarrow> mk_vm_range_contains_range outer inner False = MK_ENOT_FOUND))
   \<and> mk_vm_range_contains_range (mk_vm_range_make 0 10) (mk_vm_range_make 0 11) False
       = MK_ENOT_FOUND
   \<and> mk_vm_range_contains_range (mk_vm_range_make 0 10) (mk_vm_range_make 0 10) False
       = MK_ESUCCESS"
proof (intro conjI impI)
  assume "range_fits outer \<and> range_fits inner"
  then show "mk_vm_range_contains_range outer inner False = MK_ESUCCESS
         \<longleftrightarrow> unat (location outer) \<le> unat (location inner)
             \<and> range_end inner \<le> range_end outer"
    by (simp add: contains_range_strict_nat)
next
  assume "range_fits outer \<and> range_fits inner"
    and "mk_vm_range_contains_range outer inner False \<noteq> MK_ESUCCESS"
  then show "mk_vm_range_contains_range outer inner False = MK_ENOT_FOUND"
    by (simp add: contains_range_strict_nat split: if_splits)
next
  show "mk_vm_range_contains_range (mk_vm_range_make 0 10) (mk_vm_range_make 0 11) False
       = MK_ENOT_FOUND"
    by (simp add: contains_range_strict_nat range_fits_make_small)
      (simp add: mk_vm_range_make_def range_end_def)
next
  show "mk_vm_range_contains_range (mk_vm_range_make 0 10) (mk_vm_range_make 0 10) False
       = MK_ESUCCESS"
    by (simp add: contains_range_strict_nat range_fits_make_small)
qed

theorem mk_vm_range_contains_range_strict_witness:
  "range_fits (mk_vm_range_make 5 100) \<and> range_fits (mk_vm_range_make 20 5)
   \<and> mk_vm_range_contains_range (mk_vm_range_make 5 100) (mk_vm_range_make 20 5) False
       = MK_ESUCCESS
   \<and> mk_vm_range_contains_range (mk_vm_range_make 20 5) (mk_vm_range_make 5 100) False
       \<noteq> MK_ESUCCESS
   \<and> mk_vm_range_contains_range (mk_vm_range_make 20 5) (mk_vm_range_make 5 100) False
       = MK_ENOT_FOUND"
proof -
  have fits: "range_fits (mk_vm_range_make 5 100) \<and> range_fits (mk_vm_range_make 20 5)"
    by (simp add: range_fits_make_small)
  have fits': "range_fits (mk_vm_range_make 20 5) \<and> range_fits (mk_vm_range_make 5 100)"
    by (simp add: range_fits_make_small)
  have enclosed: "unat (location (mk_vm_range_make 5 100)) \<le> unat (location (mk_vm_range_make 20 5))
      \<and> range_end (mk_vm_range_make 20 5) \<le> range_end (mk_vm_range_make 5 100)"
    by (simp add: mk_vm_range_make_def range_end_def)
  have not_enclosed: "\<not> (unat (location (mk_vm_range_make 20 5))
        \<le> unat (location (mk_vm_range_make 5 100))
      \<and> range_end (mk_vm_range_make 5 100) \<le> range_end (mk_vm_range_make 20 5))"
    by (simp add: mk_vm_range_make_def range_end_def)
  from mk_vm_range_contains_range_strict
         [of "mk_vm_range_make 5 100" "mk_vm_range_make 20 5"] fits enclosed
  have yes: "mk_vm_range_contains_range (mk_vm_range_make 5 100) (mk_vm_range_make 20 5) False
       = MK_ESUCCESS"
    by blast
  from mk_vm_range_contains_range_strict
         [of "mk_vm_range_make 20 5" "mk_vm_range_make 5 100"] fits' not_enclosed
  have no: "mk_vm_range_contains_range (mk_vm_range_make 20 5) (mk_vm_range_make 5 100) False
       \<noteq> MK_ESUCCESS"
    by blast
  from mk_vm_range_contains_range_strict
         [of "mk_vm_range_make 20 5" "mk_vm_range_make 5 100"] fits' no
  have "mk_vm_range_contains_range (mk_vm_range_make 20 5) (mk_vm_range_make 5 100) False
       = MK_ENOT_FOUND"
    by blast
  with fits yes no show ?thesis by blast
qed

text \<open>
  Claim C3. For every outer and inner range whose sums \<open>location + length\<close> do not
  overflow, \<open>mk_vm_range_contains_range\<close> with \<open>partial = true\<close> returns
  \<open>MK_ENOT_FOUND\<close> exactly when the inner range starts before the outer location and
  ends strictly before it, or starts strictly after the outer end; in every other
  configuration it returns success. With the outer range \<open>make(0, 10)\<close>, the inner
  range \<open>make(5, 100)\<close> gives success and the inner range \<open>make(20, 5)\<close> gives
  \<open>MK_ENOT_FOUND\<close>.
\<close>

theorem mk_vm_range_contains_range_partial:
  "(range_fits outer \<and> range_fits inner \<longrightarrow>
      (mk_vm_range_contains_range outer inner True = MK_ENOT_FOUND
         \<longleftrightarrow> (unat (location inner) < unat (location outer)
                \<and> range_end inner < unat (location outer))
             \<or> unat (location inner) > range_end outer)
      \<and> (mk_vm_range_contains_range outer inner True \<noteq> MK_ENOT_FOUND
         \<longrightarrow> mk_vm_range_contains_range outer inner True = MK_ESUCCESS))
   \<and> mk_vm_range_contains_range (mk_vm_range_make 0 10) (mk_vm_range_make 5 100) True
       = MK_ESUCCESS
   \<and> mk_vm_range_contains_range (mk_vm_range_make 0 10) (mk_vm_range_make 20 5) True
       = MK_ENOT_FOUND"
proof (intro conjI impI)
  assume "range_fits outer \<and> range_fits inner"
  then show "mk_vm_range_contains_range outer inner True = MK_ENOT_FOUND
         \<longleftrightarrow> (unat (location inner) < unat (location outer)
                \<and> range_end inner < unat (location outer))
             \<or> unat (location inner) > range_end outer"
    by (simp add: contains_range_partial_nat)
next
  assume "range_fits outer \<and> range_fits inner"
    and "mk_vm_range_contains_range outer inner True \<noteq> MK_ENOT_FOUND"
  then show "mk_vm_range_contains_range outer inner True = MK_ESUCCESS"
    by (simp add: contains_range_partial_nat split: if_splits)
next
  show "mk_vm_range_contains_range (mk_vm_range_make 0 10) (mk_vm_range_make 5 100) True
       = MK_ESUCCESS"
    by (simp add: contains_range_partial_nat range_fits_make_small)
      (simp add: mk_vm_range_make_def range_end_def)
next
  show "mk_vm_range_contains_range (mk_vm_range_make 0 10) (mk_vm_range_make 20 5) True
       = MK_ENOT_FOUND"
    by (simp add: contains_range_partial_nat range_fits_make_small)
      (simp add: mk_vm_range_make_def range_end_def)
qed

theorem mk_vm_range_contains_range_partial_witness:
  "range_fits (mk_vm_range_make 20 5) \<and> range_fits (mk_vm_range_make 0 10)
   \<and> mk_vm_range_contains_range (mk_vm_range_make 20 5) (mk_vm_range_make 0 10) True
       = MK_ENOT_FOUND
   \<and> mk_vm_range_contains_range (mk_vm_range_make 0 10) (mk_vm_range_make 0 11) True
       \<noteq> MK_ENOT_FOUND
   \<and> mk_vm_range_contains_range (mk_vm_range_make 0 10) (mk_vm_range_make 0 11) True
       = MK_ESUCCESS"
proof -
  have fits: "range_fits (mk_vm_range_make 20 5) \<and> range_fits (mk_vm_range_make 0 10)"
    by (simp add: range_fits_make_small)
  have fits': "range_fits (mk_vm_range_make 0 10) \<and> range_fits (mk_vm_range_make 0 11)"
    by (simp add: range_fits_make_small)
  have before: "unat (location (mk_vm_range_make 0 10)) < unat (location (mk_vm_range_make 20 5))
      \<and> range_end (mk_vm_range_make 0 10) < unat (location (mk_vm_range_make 20 5))"
    by (simp add: mk_vm_range_make_def range_end_def)
  have overlap: "\<not> ((unat (location (mk_vm_range_make 0 11))
          < unat (location (mk_vm_range_make 0 10))
        \<and> range_end (mk_vm_range_make 0 11) < unat (location (mk_vm_range_make 0 10)))
      \<or> unat (location (mk_vm_range_make 0 11)) > range_end (mk_vm_range_make 0 10))"
    by (simp add: mk_vm_range_make_def range_end_def)
  from mk_vm_range_contains_range_partial
         [of "mk_vm_range_make 20 5" "mk_vm_range_make 0 10"] fits before
  have no: "mk_vm_range_contains_range (mk_vm_range_make 20 5) (mk_vm_range_make 0 10) True
       = MK_ENOT_FOUND"
    by blast
  from mk_vm_range_contains_range_partial
         [of "mk_vm_range_make 0 10" "mk_vm_range_make 0 11"] fits' overlap
  have notno: "mk_vm_range_contains_range (mk_vm_range_make 0 10) (mk_vm_range_make 0 11) True
       \<noteq> MK_ENOT_FOUND"
    by blast
  from mk_vm_range_contains_range_partial
         [of "mk_vm_range_make 0 10" "mk_vm_range_make 0 11"] fits' notno
  have "mk_vm_range_contains_range (mk_vm_range_make 0 10) (mk_vm_range_make 0 11) True
       = MK_ESUCCESS"
    by blast
  with fits no notno show ?thesis by blast
qed

lemma empty_range_fits: "length_sz r = 0 \<Longrightarrow> range_fits r"
  using unat_le_max_word64 [of "location r"]
  by (simp add: range_fits_def range_end_def unat_MK_VM_SIZE_MAX)

lemma empty_range_contains_nothing:
  assumes "length_sz r = 0" and "unat a + unat off \<le> unat MK_VM_ADDRESS_MAX"
  shows "mk_vm_range_contains_address r off a = MK_ENOT_FOUND"
  using assms
  by (simp add: contains_address_nat empty_range_fits) (simp add: range_end_def)

lemma zero_offset_fits:
  "unat (a :: mk_vm_address_t) + unat (0 :: mk_vm_offset_t) \<le> unat MK_VM_ADDRESS_MAX"
  using unat_le_max_word64 [of a] by (simp add: unat_MK_VM_ADDRESS_MAX)

text \<open>
  Claim C4. For every range \<open>r\<close>, offset \<open>off\<close> and address \<open>a\<close> such that neither
  \<open>a + off\<close> nor \<open>location + length\<close> overflows, \<open>mk_vm_range_contains_address\<close>
  returns success exactly when \<open>location \<le> a + off < location + length\<close>, and
  \<open>MK_ENOT_FOUND\<close> otherwise. For \<open>r = make(10, 5)\<close> and offset 0, address 10 gives
  success, and addresses 15 and 9 give \<open>MK_ENOT_FOUND\<close>. A range of length 0 gives
  \<open>MK_ENOT_FOUND\<close> for every address (every \<open>a\<close> with offset 0, and every \<open>a\<close> and
  \<open>off\<close> whose sum does not overflow).
\<close>

theorem mk_vm_range_contains_address_exact:
  "(unat a + unat off \<le> unat MK_VM_ADDRESS_MAX \<and> range_fits r \<longrightarrow>
      (mk_vm_range_contains_address r off a = MK_ESUCCESS
         \<longleftrightarrow> unat (location r) \<le> unat a + unat off \<and> unat a + unat off < range_end r)
      \<and> (mk_vm_range_contains_address r off a \<noteq> MK_ESUCCESS
         \<longrightarrow> mk_vm_range_contains_address r off a = MK_ENOT_FOUND))
   \<and> mk_vm_range_contains_address (mk_vm_range_make 10 5) 0 10 = MK_ESUCCESS
   \<and> mk_vm_range_contains_address (mk_vm_range_make 10 5) 0 15 = MK_ENOT_FOUND
   \<and> mk_vm_range_contains_address (mk_vm_range_make 10 5) 0 9 = MK_ENOT_FOUND
   \<and> (length_sz r = 0 \<longrightarrow> mk_vm_range_contains_address r 0 a = MK_ENOT_FOUND)
   \<and> (length_sz r = 0 \<and> unat a + unat off \<le> unat MK_VM_ADDRESS_MAX
      \<longrightarrow> mk_vm_range_contains_address r off a = MK_ENOT_FOUND)"
proof (intro conjI impI)
  assume "unat a + unat off \<le> unat MK_VM_ADDRESS_MAX \<and> range_fits r"
  then show "mk_vm_range_contains_address r off a = MK_ESUCCESS
         \<longleftrightarrow> unat (location r) \<le> unat a + unat off \<and> unat a + unat off < range_end r"
    by (simp add: contains_address_nat)
next
  assume "unat a + unat off \<le> unat MK_VM_ADDRESS_MAX \<and> range_fits r"
    and "mk_vm_range_contains_address r off a \<noteq> MK_ESUCCESS"
  then show "mk_vm_range_contains_address r off a = MK_ENOT_FOUND"
    by (simp add: contains_address_nat split: if_splits)
next
  show "mk_vm_range_contains_address (mk_vm_range_make 10 5) 0 10 = MK_ESUCCESS"
    by (simp add: mk_vm_range_contains_address_def mk_vm_address_apply_offset_def
        MK_VM_ADDRESS_MAX_def MK_VM_SIZE_MAX_def mk_vm_range_make_def)
next
  show "mk_vm_range_contains_address (mk_vm_range_make 10 5) 0 15 = MK_ENOT_FOUND"
    by (simp add: mk_vm_range_contains_address_def mk_vm_address_apply_offset_def
        MK_VM_ADDRESS_MAX_def MK_VM_SIZE_MAX_def mk_vm_range_make_def)
next
  show "mk_vm_range_contains_address (mk_vm_range_make 10 5) 0 9 = MK_ENOT_FOUND"
    by (simp add: mk_vm_range_contains_address_def mk_vm_address_apply_offset_def
        MK_VM_ADDRESS_MAX_def MK_VM_SIZE_MAX_def mk_vm_range_make_def)
next
  assume "length_sz r = 0"
  then show "mk_vm_range_contains_address r 0 a = MK_ENOT_FOUND"
    using zero_offset_fits [of a] by (rule empty_range_contains_nothing)
next
  assume "length_sz r = 0 \<and> unat a + unat off \<le> unat MK_VM_ADDRESS_MAX"
  then show "mk_vm_range_contains_address r off a = MK_ENOT_FOUND"
    by (simp add: empty_range_contains_nothing)
qed

theorem mk_vm_range_contains_address_exact_witness:
  "unat (4 :: mk_vm_address_t) + unat (8 :: mk_vm_offset_t) \<le> unat MK_VM_ADDRESS_MAX
   \<and> range_fits (mk_vm_range_make 10 5)
   \<and> mk_vm_range_contains_address (mk_vm_range_make 10 5) 8 4 = MK_ESUCCESS
   \<and> mk_vm_range_contains_address (mk_vm_range_make 10 5) 8 7 \<noteq> MK_ESUCCESS
   \<and> mk_vm_range_contains_address (mk_vm_range_make 10 5) 8 7 = MK_ENOT_FOUND
   \<and> length_sz (mk_vm_range_make 12 0) = 0
   \<and> mk_vm_range_contains_address (mk_vm_range_make 12 0) 0 12 = MK_ENOT_FOUND
   \<and> mk_vm_range_contains_address (mk_vm_range_make 12 0) 8 4 = MK_ENOT_FOUND"
proof -
  have sum4: "unat (4 :: mk_vm_address_t) + unat (8 :: mk_vm_offset_t) \<le> unat MK_VM_ADDRESS_MAX"
    by (simp add: unat_MK_VM_ADDRESS_MAX)
  have sum7: "unat (7 :: mk_vm_address_t) + unat (8 :: mk_vm_offset_t) \<le> unat MK_VM_ADDRESS_MAX"
    by (simp add: unat_MK_VM_ADDRESS_MAX)
  have fits: "range_fits (mk_vm_range_make 10 5)"
    by (simp add: range_fits_make_small)
  have inside: "unat (location (mk_vm_range_make 10 5))
        \<le> unat (4 :: mk_vm_address_t) + unat (8 :: mk_vm_offset_t)
      \<and> unat (4 :: mk_vm_address_t) + unat (8 :: mk_vm_offset_t)
        < range_end (mk_vm_range_make 10 5)"
    by (simp add: mk_vm_range_make_def range_end_def)
  have outside: "\<not> (unat (location (mk_vm_range_make 10 5))
        \<le> unat (7 :: mk_vm_address_t) + unat (8 :: mk_vm_offset_t)
      \<and> unat (7 :: mk_vm_address_t) + unat (8 :: mk_vm_offset_t)
        < range_end (mk_vm_range_make 10 5))"
    by (simp add: mk_vm_range_make_def range_end_def)
  have empty: "length_sz (mk_vm_range_make 12 0) = 0"
    by (simp add: mk_vm_range_make_def)
  from mk_vm_range_contains_address_exact [of 4 8 "mk_vm_range_make 10 5"] sum4 fits inside
  have yes: "mk_vm_range_contains_address (mk_vm_range_make 10 5) 8 4 = MK_ESUCCESS"
    by blast
  from mk_vm_range_contains_address_exact [of 7 8 "mk_vm_range_make 10 5"] sum7 fits outside
  have no: "mk_vm_range_contains_address (mk_vm_range_make 10 5) 8 7 \<noteq> MK_ESUCCESS"
    by blast
  from mk_vm_range_contains_address_exact [of 7 8 "mk_vm_range_make 10 5"] sum7 fits no
  have nf: "mk_vm_range_contains_address (mk_vm_range_make 10 5) 8 7 = MK_ENOT_FOUND"
    by blast
  from mk_vm_range_contains_address_exact [of 12 0 "mk_vm_range_make 12 0"] empty
  have e1: "mk_vm_range_contains_address (mk_vm_range_make 12 0) 0 12 = MK_ENOT_FOUND"
    by blast
  from mk_vm_range_contains_address_exact [of 4 8 "mk_vm_range_make 12 0"] empty sum4
  have e2: "mk_vm_range_contains_address (mk_vm_range_make 12 0) 8 4 = MK_ENOT_FOUND"
    by blast
  from sum4 fits yes no nf empty e1 e2 show ?thesis by blast
qed

text \<open>
  Claim C5. For every range \<open>r\<close>, offset \<open>off\<close> and address \<open>a\<close>: if
  \<open>location + length\<close> of \<open>r\<close> overflows, \<open>mk_vm_range_contains_address\<close> returns
  \<open>MK_EOVERFLOW\<close>, whether or not \<open>a + off\<close> lies inside the range and whether or not
  \<open>a + off\<close> itself overflows.
\<close>

theorem mk_vm_range_contains_address_overflow:
  assumes "\<not> range_fits r"
  shows "mk_vm_range_contains_address r off a = MK_EOVERFLOW"
proof (cases "unat a + unat off \<le> unat MK_VM_ADDRESS_MAX")
  case True
  then have "mk_vm_address_apply_offset a off (Some a) = (MK_ESUCCESS, Some (a + off))"
    by (rule apply_offset_stores_sum(1))
  moreover have "MK_VM_SIZE_MAX - length_sz r < location r"
    using assms by (simp add: range_overflow_test)
  ultimately show ?thesis
    by (simp add: mk_vm_range_contains_address_def)
next
  case False
  then have "mk_vm_address_apply_offset a off (Some a) = (MK_EOVERFLOW, Some a)"
    by (rule apply_offset_overflow)
  then show ?thesis
    by (simp add: mk_vm_range_contains_address_def)
qed

theorem mk_vm_range_contains_address_overflow_witness:
  "\<not> range_fits (mk_vm_range_make (- 2) 5)
   \<and> mk_vm_range_contains_address (mk_vm_range_make (- 2) 5) 0 (- 1) = MK_EOVERFLOW
   \<and> mk_vm_range_contains_address (mk_vm_range_make (- 2) 5) 1 (- 1) = MK_EOVERFLOW
   \<and> mk_vm_range_contains_address (mk_vm_range_make (- 2) 5) 0 3 = MK_EOVERFLOW"
proof -
  have "unat (- 2 :: 64 word) = 2 ^ 64 - 2"
    by (simp add: unat_eq_nat_uint)
  then have over: "\<not> range_fits (mk_vm_range_make (- 2) 5)"
    by (simp add: range_fits_def range_end_def mk_vm_range_make_def unat_MK_VM_SIZE_MAX)
  from over mk_vm_range_contains_address_overflow [OF over, of 0 "- 1"]
    mk_vm_range_contains_address_overflow [OF over, of 1 "- 1"]
    mk_vm_range_contains_address_overflow [OF over, of 0 3]
  show ?thesis by blast
qed

lemma contains_address_zero_offset:
  assumes "range_fits r"
  shows "mk_vm_range_contains_address r 0 x = MK_ESUCCESS
    \<longleftrightarrow> unat (location r) \<le> unat x \<and> unat x < range_end r"
  using contains_address_nat [OF zero_offset_fits assms, of x] by simp

text \<open>
  Claim C9. In partial mode \<open>mk_vm_range_contains_range\<close> accepts an inner range that
  starts exactly at the end of the outer range: for every outer and inner range without
  overflow and with the inner location equal to the outer location plus the outer
  length, the result is success, although no address is contained in both ranges.
\<close>

theorem mk_vm_range_contains_range_partial_adjacent:
  "range_fits outer \<and> range_fits inner \<and> unat (location inner) = range_end outer \<longrightarrow>
     mk_vm_range_contains_range outer inner True = MK_ESUCCESS
     \<and> (\<forall>x. \<not> (mk_vm_range_contains_address outer 0 x = MK_ESUCCESS
               \<and> mk_vm_range_contains_address inner 0 x = MK_ESUCCESS))"
proof (intro impI conjI allI)
  assume h: "range_fits outer \<and> range_fits inner \<and> unat (location inner) = range_end outer"
  have "unat (location outer) \<le> range_end outer"
    by (simp add: range_end_def)
  with h show "mk_vm_range_contains_range outer inner True = MK_ESUCCESS"
    by (simp add: contains_range_partial_nat)
  fix x
  from h show "\<not> (mk_vm_range_contains_address outer 0 x = MK_ESUCCESS
               \<and> mk_vm_range_contains_address inner 0 x = MK_ESUCCESS)"
    by (simp add: contains_address_zero_offset)
qed

theorem mk_vm_range_contains_range_partial_adjacent_witness:
  "range_fits (mk_vm_range_make 0 10) \<and> range_fits (mk_vm_range_make 10 5)
   \<and> unat (location (mk_vm_range_make 10 5)) = range_end (mk_vm_range_make 0 10)
   \<and> mk_vm_range_contains_range (mk_vm_range_make 0 10) (mk_vm_range_make 10 5) True
       = MK_ESUCCESS
   \<and> (\<forall>x. \<not> (mk_vm_range_contains_address (mk_vm_range_make 0 10) 0 x = MK_ESUCCESS
             \<and> mk_vm_range_contains_address (mk_vm_range_make 10 5) 0 x = MK_ESUCCESS))"
proof -
  have h: "range_fits (mk_vm_range_make 0 10) \<and> range_fits (mk_vm_range_make 10 5)
      \<and> unat (location (mk_vm_range_make 10 5)) = range_end (mk_vm_range_make 0 10)"
    by (simp add: range_fits_make_small) (simp add: mk_vm_range_make_def range_end_def)
  from h mk_vm_range_contains_range_partial_adjacent
           [of "mk_vm_range_make 0 10" "mk_vm_range_make 10 5"]
  show ?thesis by blast
qed

section \<open>Byte order\<close>

lemma byte_masks16:
  "(0xff00 :: 16 word) = push_bit 8 (mask 8)" "(0x00ff :: 16 word) = mask 8"
  by (simp_all add: mask_eq_exp_minus_1)

lemma byte_masks32:
  "(0xff000000 :: 32 word) = push_bit 24 (mask 8)"
  "(0x00ff0000 :: 32 word) = push_bit 16 (mask 8)"
  "(0x0000ff00 :: 32 word) = push_bit 8 (mask 8)"
  "(0x000000ff :: 32 word) = mask 8"
  by (simp_all add: mask_eq_exp_minus_1)

lemma byte_masks64:
  "(0xff00000000000000 :: 64 word) = push_bit 56 (mask 8)"
  "(0x00ff000000000000 :: 64 word) = push_bit 48 (mask 8)"
  "(0x0000ff0000000000 :: 64 word) = push_bit 40 (mask 8)"
  "(0x000000ff00000000 :: 64 word) = push_bit 32 (mask 8)"
  "(0x00000000ff000000 :: 64 word) = push_bit 24 (mask 8)"
  "(0x0000000000ff0000 :: 64 word) = push_bit 16 (mask 8)"
  "(0x000000000000ff00 :: 64 word) = push_bit 8 (mask 8)"
  "(0x00000000000000ff :: 64 word) = mask 8"
  by (simp_all add: mask_eq_exp_minus_1)

lemma split_bit_index:
  assumes "n < 8 * k"
  obtains q r where "n = 8 * q + r" and "q < k" and "r < (8::nat)"
proof
  show "n = 8 * (n div 8) + n mod 8" by simp
  show "n div 8 < k" using assms by (simp add: div_less_iff_less_mult mult.commute)
  show "n mod 8 < 8" by simp
qed

text \<open>Bit \<open>r\<close> of byte \<open>q\<close> of the result is bit \<open>r\<close> of the mirrored byte of the argument.\<close>

lemma bit_OSSwapInt16:
  assumes "q < 2" and "r < 8"
  shows "bit (OSSwapInt16 x) (8 * q + r) = bit x (8 * (1 - q) + r)"
proof -
  from assms(1) have "q = 0 \<or> q = 1" by arith
  then show ?thesis
    using assms(2) by (elim disjE) (simp_all add: OSSwapInt16_def byte_masks16 bit_simps)
qed

lemma bit_OSSwapInt32:
  assumes "q < 4" and "r < 8"
  shows "bit (OSSwapInt32 x) (8 * q + r) = bit x (8 * (3 - q) + r)"
proof -
  from assms(1) have "q = 0 \<or> q = 1 \<or> q = 2 \<or> q = 3" by arith
  then show ?thesis
    using assms(2) by (elim disjE) (simp_all add: OSSwapInt32_def byte_masks32 bit_simps)
qed

lemma bit_OSSwapInt64:
  assumes "q < 8" and "r < 8"
  shows "bit (OSSwapInt64 x) (8 * q + r) = bit x (8 * (7 - q) + r)"
proof -
  from assms(1)
  have "q = 0 \<or> q = 1 \<or> q = 2 \<or> q = 3 \<or> q = 4 \<or> q = 5 \<or> q = 6 \<or> q = 7" by arith
  then show ?thesis
    using assms(2) by (elim disjE) (simp_all add: OSSwapInt64_def byte_masks64 bit_simps)
qed

lemma OSSwapInt16_twice: "OSSwapInt16 (OSSwapInt16 x) = x"
proof (rule bit_word_eqI)
  fix n assume "n < LENGTH(16)"
  then have "n < 8 * 2" by simp
  then obtain q r where n: "n = 8 * q + r" and q: "q < 2" and r: "r < 8"
    by (rule split_bit_index)
  from q have q': "1 - q < 2" by simp
  have "bit (OSSwapInt16 (OSSwapInt16 x)) (8 * q + r) = bit (OSSwapInt16 x) (8 * (1 - q) + r)"
    using q r by (rule bit_OSSwapInt16)
  also have "\<dots> = bit x (8 * (1 - (1 - q)) + r)"
    using q' r by (rule bit_OSSwapInt16)
  also have "1 - (1 - q) = q" using q by simp
  finally show "bit (OSSwapInt16 (OSSwapInt16 x)) n = bit x n"
    by (simp add: n)
qed

lemma OSSwapInt32_twice: "OSSwapInt32 (OSSwapInt32 x) = x"
proof (rule bit_word_eqI)
  fix n assume "n < LENGTH(32)"
  then have "n < 8 * 4" by simp
  then obtain q r where n: "n = 8 * q + r" and q: "q < 4" and r: "r < 8"
    by (rule split_bit_index)
  from q have q': "3 - q < 4" by simp
  have "bit (OSSwapInt32 (OSSwapInt32 x)) (8 * q + r) = bit (OSSwapInt32 x) (8 * (3 - q) + r)"
    using q r by (rule bit_OSSwapInt32)
  also have "\<dots> = bit x (8 * (3 - (3 - q)) + r)"
    using q' r by (rule bit_OSSwapInt32)
  also have "3 - (3 - q) = q" using q by simp
  finally show "bit (OSSwapInt32 (OSSwapInt32 x)) n = bit x n"
    by (simp add: n)
qed

lemma OSSwapInt64_twice: "OSSwapInt64 (OSSwapInt64 x) = x"
proof (rule bit_word_eqI)
  fix n assume "n < LENGTH(64)"
  then have "n < 8 * 8" by simp
  then obtain q r where n: "n = 8 * q + r" and q: "q < 8" and r: "r < 8"
    by (rule split_bit_index)
  from q have q': "7 - q < 8" by simp
  have "bit (OSSwapInt64 (OSSwapInt64 x)) (8 * q + r) = bit (OSSwapInt64 x) (8 * (7 - q) + r)"
    using q r by (rule bit_OSSwapInt64)
  also have "\<dots> = bit x (8 * (7 - (7 - q)) + r)"
    using q' r by (rule bit_OSSwapInt64)
  also have "7 - (7 - q) = q" using q by simp
  finally show "bit (OSSwapInt64 (OSSwapInt64 x)) n = bit x n"
    by (simp add: n)
qed

lemma swapped_examples:
  "swap16 mk_byteorder_swapped 0x1234 = 0x3412"
  "swap32 mk_byteorder_swapped 0x12345678 = 0x78563412"
  "swap64 mk_byteorder_swapped 0x0102030405060708 = 0x0807060504030201"
  by (simp_all add: mk_byteorder_swapped_def mk_swap16_def mk_swap32_def mk_swap64_def
      OSSwapInt16_def OSSwapInt32_def OSSwapInt64_def)

text \<open>
  Claim C8. For every value of width 16, 32 or 64 bits, applying the swap operation of
  the swapped byte order twice gives the value back, and the swap operation of the
  direct byte order is the identity.
\<close>

theorem mk_byteorder_swap_roundtrip:
  "swap16 mk_byteorder_swapped (swap16 mk_byteorder_swapped v16) = v16
   \<and> swap32 mk_byteorder_swapped (swap32 mk_byteorder_swapped v32) = v32
   \<and> swap64 mk_byteorder_swapped (swap64 mk_byteorder_swapped v64) = v64
   \<and> swap16 mk_byteorder_direct v16 = v16
   \<and> swap32 mk_byteorder_direct v32 = v32
   \<and> swap64 mk_byteorder_direct v64 = v64"
  by (simp add: mk_byteorder_swapped_def mk_byteorder_direct_def
      mk_swap16_def mk_swap32_def mk_swap64_def mk_nswap16_def mk_nswap32_def mk_nswap64_def
      OSSwapInt16_twice OSSwapInt32_twice OSSwapInt64_twice)

theorem mk_byteorder_swap_roundtrip_witness:
  "swap16 mk_byteorder_swapped (swap16 mk_byteorder_swapped 0x1234) = 0x1234
   \<and> swap32 mk_byteorder_swapped (swap32 mk_byteorder_swapped 0x12345678) = 0x12345678
   \<and> swap64 mk_byteorder_swapped (swap64 mk_byteorder_swapped 0x0102030405060708)
       = 0x0102030405060708
   \<and> swap16 mk_byteorder_direct 0x1234 = 0x1234
   \<and> swap32 mk_byteorder_direct 0x12345678 = 0x12345678
   \<and> swap64 mk_byteorder_direct 0x0102030405060708 = 0x0102030405060708"
  by (rule mk_byteorder_swap_roundtrip [of "0x1234" "0x12345678" "0x0102030405060708"])

section \<open>Buffer swap\<close>

lemma mirrored_inside:
  assumes "input + i \<le> a" and "a < input + (len - i)"
  shows "mirrored input len i mem a = mem (mirror input len a)"
proof -
  from assms have "input + i \<le> a \<and> a < input + (len - i)" by (rule conjI)
  then show ?thesis unfolding mirrored_def by (rule if_P)
qed

lemma mirrored_outside:
  assumes "a < input + i \<or> input + (len - i) \<le> a"
  shows "mirrored input len i mem a = mem a"
proof -
  from assms have "\<not> (input + i \<le> a \<and> a < input + (len - i))" by arith
  then show ?thesis unfolding mirrored_def by (rule if_not_P)
qed

lemma mirrored_done:
  assumes "len div 2 \<le> i"
  shows "mirrored input len i mem = mem"
proof (rule ext)
  fix a
  show "mirrored input len i mem a = mem a"
  proof (cases "input + i \<le> a \<and> a < input + (len - i)")
    case True
    with assms have "mirror input len a = a"
      unfolding mirror_def by arith
    with True show ?thesis by (simp add: mirrored_inside)
  next
    case False
    then have "a < input + i \<or> input + (len - i) \<le> a" by arith
    then show ?thesis by (rule mirrored_outside)
  qed
qed

lemma mirrored_step:
  assumes "i < len div 2"
  shows "mirrored input len (Suc i)
           ((mem (input + i := mem (input + (len - i - 1))))
               (input + (len - i - 1) := mem (input + i)))
         = mirrored input len i mem"
proof (rule ext)
  fix a
  define p where "p = input + i"
  define q where "q = input + (len - i - 1)"
  define m2 where "m2 = (mem (p := mem q)) (q := mem p)"
  have pq: "p \<noteq> q"
    unfolding p_def q_def using assms by arith
  consider "a = p" | "a = q"
    | "input + Suc i \<le> a \<and> a < input + (len - Suc i)"
    | "a < input + i \<or> input + (len - i) \<le> a"
    unfolding p_def q_def by arith
  then have "mirrored input len (Suc i) m2 a = mirrored input len i mem a"
  proof cases
    case 1
    have out: "a < input + Suc i \<or> input + (len - Suc i) \<le> a"
      unfolding 1 p_def by arith
    have "input + i \<le> a" "a < input + (len - i)" "mirror input len a = q"
      unfolding 1 p_def q_def mirror_def using assms by arith+
    then have "mirrored input len i mem a = mem q"
      by (simp add: mirrored_inside)
    moreover have "mirrored input len (Suc i) m2 a = m2 a"
      using out by (rule mirrored_outside)
    moreover have "m2 a = mem q"
      using pq by (simp add: m2_def 1)
    ultimately show ?thesis by simp
  next
    case 2
    have out: "a < input + Suc i \<or> input + (len - Suc i) \<le> a"
      unfolding 2 q_def using assms by arith
    have "input + i \<le> a" "a < input + (len - i)" "mirror input len a = p"
      unfolding 2 p_def q_def mirror_def using assms by arith+
    then have "mirrored input len i mem a = mem p"
      by (simp add: mirrored_inside)
    moreover have "mirrored input len (Suc i) m2 a = m2 a"
      using out by (rule mirrored_outside)
    moreover have "m2 a = mem p"
      by (simp add: m2_def 2)
    ultimately show ?thesis by simp
  next
    case 3
    then have "input + i \<le> a" "a < input + (len - i)"
      by arith+
    then have "mirrored input len i mem a = mem (mirror input len a)"
      by (rule mirrored_inside)
    moreover have "mirrored input len (Suc i) m2 a = m2 (mirror input len a)"
      using 3 by (simp add: mirrored_inside)
    moreover have "mirror input len a \<noteq> p" "mirror input len a \<noteq> q"
      unfolding p_def q_def mirror_def using 3 assms by arith+
    then have "m2 (mirror input len a) = mem (mirror input len a)"
      by (simp add: m2_def)
    ultimately show ?thesis by simp
  next
    case 4
    then have "a \<noteq> p" "a \<noteq> q" "a < input + Suc i \<or> input + (len - Suc i) \<le> a"
      unfolding p_def q_def using assms by arith+
    then have "mirrored input len (Suc i) m2 a = mem a"
      by (simp add: mirrored_outside m2_def)
    moreover have "mirrored input len i mem a = mem a"
      using 4 by (rule mirrored_outside)
    ultimately show ?thesis by simp
  qed
  then show "mirrored input len (Suc i)
           ((mem (input + i := mem (input + (len - i - 1))))
               (input + (len - i - 1) := mem (input + i))) a
         = mirrored input len i mem a"
    by (simp only: m2_def p_def q_def)
qed

text \<open>The loop invariant: started at counter \<open>i\<close>, the loop reverses what is left.\<close>

lemma mk_swap_loop_mirrored:
  "i \<le> len div 2 \<Longrightarrow> mk_swap_loop input len i mem = mirrored input len i mem"
proof (induction input len i mem rule: mk_swap_loop.induct)
  case (1 input len i mem)
  show ?case
  proof (cases "i < len div 2")
    case True
    define m2 where "m2 = (mem (input + i := mem (input + (len - i - 1))))
               (input + (len - i - 1) := mem (input + i))"
    have "mk_swap_loop input len i mem = mk_swap_loop input len (i + 1) m2"
      using True by (subst mk_swap_loop.simps) (simp only: Let_def m2_def if_True)
    also have "\<dots> = mirrored input len (i + 1) m2"
      unfolding m2_def using True by (intro "1.IH" [OF True refl refl refl]) simp
    also have "\<dots> = mirrored input len i mem"
      using mirrored_step [OF True, of input mem] by (simp add: m2_def)
    finally show ?thesis .
  next
    case False
    then show ?thesis
      by (subst mk_swap_loop.simps) (simp add: mirrored_done)
  qed
qed

lemma mirrored_twice: "mirrored input len 0 (mirrored input len 0 mem) = mem"
proof (rule ext)
  fix a
  show "mirrored input len 0 (mirrored input len 0 mem) a = mem a"
  proof (cases "input \<le> a \<and> a < input + len")
    case True
    then have in1: "input + 0 \<le> a" "a < input + (len - 0)" by simp_all
    have in2: "input + 0 \<le> mirror input len a" "mirror input len a < input + (len - 0)"
      unfolding mirror_def using True by arith+
    have again: "mirror input len (mirror input len a) = a"
      unfolding mirror_def using True by arith
    have "mirrored input len 0 (mirrored input len 0 mem) a
        = mirrored input len 0 mem (mirror input len a)"
      using in1 by (rule mirrored_inside)
    also have "\<dots> = mem (mirror input len (mirror input len a))"
      using in2 by (rule mirrored_inside)
    finally show ?thesis by (simp add: again)
  next
    case False
    then have out: "a < input + 0 \<or> input + (len - 0) \<le> a" by arith
    have "mirrored input len 0 (mirrored input len 0 mem) a = mirrored input len 0 mem a"
      using out by (rule mirrored_outside)
    also have "\<dots> = mem a"
      using out by (rule mirrored_outside)
    finally show ?thesis .
  qed
qed

lemma span_reversed:
  "map (mirrored input len 0 mem) [input ..< input + len]
    = rev (map mem [input ..< input + len])"
proof (rule nth_equalityI)
  show "length (map (mirrored input len 0 mem) [input..<input + len])
      = length (rev (map mem [input..<input + len]))" by simp
next
  fix i assume "i < length (map (mirrored input len 0 mem) [input..<input + len])"
  then have i: "i < len" by simp
  then have j: "len - Suc i < len" by simp
  have "input + 0 \<le> input + i" "input + i < input + (len - 0)"
    using i by simp_all
  then have "mirrored input len 0 mem (input + i) = mem (mirror input len (input + i))"
    by (rule mirrored_inside)
  moreover have "mirror input len (input + i) = input + (len - Suc i)"
    unfolding mirror_def by simp
  ultimately show "map (mirrored input len 0 mem) [input..<input + len] ! i
      = rev (map mem [input..<input + len]) ! i"
    using i j by (simp add: rev_nth)
qed

lemma mirrored_explicit:
  "mirrored input len 0 mem =
     (\<lambda>a. if input \<le> a \<and> a < input + len
          then mem (input + (len - 1 - (a - input))) else mem a)"
  unfolding mirrored_def mirror_def by simp

lemma mk_swap_mirrored: "mk_swap mem input len = (input, mirrored input len 0 mem)"
  by (simp only: mk_swap_def mk_swap_loop_mirrored [OF le0])

text \<open>
  Claim C10. The buffer swap of the swapped byte order, \<open>_mk_swap\<close>, returns the
  pointer it was given and reverses the bytes of the span in place: read as a list, the
  span after the call is the reverse of the span before; the byte at an address of the
  span is the old byte at the mirrored address and every byte outside the span is
  unchanged. Applying it twice with the same length gives the original store back, for
  every store, pointer and length.
\<close>

theorem mk_swap_reverses_in_place:
  "fst (swap_buffer mk_byteorder_swapped mem input len) = input
   \<and> map (snd (swap_buffer mk_byteorder_swapped mem input len)) [input ..< input + len]
       = rev (map mem [input ..< input + len])
   \<and> snd (swap_buffer mk_byteorder_swapped mem input len)
       = (\<lambda>a. if input \<le> a \<and> a < input + len
              then mem (input + (len - 1 - (a - input))) else mem a)
   \<and> swap_buffer mk_byteorder_swapped
         (snd (swap_buffer mk_byteorder_swapped mem input len)) input len
       = (input, mem)"
proof -
  have run: "swap_buffer mk_byteorder_swapped m input len = (input, mirrored input len 0 m)"
    for m
    by (simp add: mk_byteorder_swapped_def mk_swap_mirrored)
  have "snd (swap_buffer mk_byteorder_swapped mem input len)
       = (\<lambda>a. if input \<le> a \<and> a < input + len
              then mem (input + (len - 1 - (a - input))) else mem a)"
    by (simp only: run snd_conv mirrored_explicit)
  moreover have "map (snd (swap_buffer mk_byteorder_swapped mem input len))
       [input ..< input + len] = rev (map mem [input ..< input + len])"
    by (simp only: run snd_conv span_reversed)
  moreover have "swap_buffer mk_byteorder_swapped
         (snd (swap_buffer mk_byteorder_swapped mem input len)) input len = (input, mem)"
    by (simp only: run snd_conv mirrored_twice)
  moreover have "fst (swap_buffer mk_byteorder_swapped mem input len) = input"
    by (simp only: run fst_conv)
  ultimately show ?thesis by blast
qed

theorem mk_swap_reverses_in_place_witness:
  "map (snd (swap_buffer mk_byteorder_swapped (\<lambda>a. word_of_nat a) 3 5)) [0 ..< 10]
     = [0, 1, 2, 7, 6, 5, 4, 3, 8, 9]
   \<and> fst (swap_buffer mk_byteorder_swapped (\<lambda>a. word_of_nat a) 3 5) = 3
   \<and> swap_buffer mk_byteorder_swapped
        (snd (swap_buffer mk_byteorder_swapped (\<lambda>a. word_of_nat a) 3 5)) 3 5
       = (3, \<lambda>a. word_of_nat a)"
proof -
  note inst = mk_swap_reverses_in_place [of "\<lambda>a. word_of_nat a" 3 5]
  from inst have "snd (swap_buffer mk_byteorder_swapped (\<lambda>a. word_of_nat a) 3 5)
       = (\<lambda>a. if 3 \<le> a \<and> a < 3 + 5
              then word_of_nat (3 + (5 - 1 - (a - 3))) else word_of_nat a)"
    by blast
  then have "map (snd (swap_buffer mk_byteorder_swapped (\<lambda>a. word_of_nat a) 3 5)) [0 ..< 10]
     = [0, 1, 2, 7, 6, 5, 4, 3, 8, 9]"
    by (simp add: upt_rec)
  with inst show ?thesis by blast
qed

section \<open>Runtime type tests\<close>

text \<open>On a finite chain the loop returns, and it returns whether \<open>t\<close> is on the chain.\<close>

lemma is_kind_of_loop_chain:
  "vtable_chain vtables p ps \<Longrightarrow> mk_type_is_kind_of_loop vtables p t = Some (t \<in> set ps)"
proof (induction rule: vtable_chain.induct)
  case chain_null
  show ?case by (subst mk_type_is_kind_of_loop.simps) simp
next
  case (chain_step p ps)
  then show ?case
    by (subst mk_type_is_kind_of_loop.simps) auto
qed

lemma chain_unique:
  "vtable_chain vtables p ps \<Longrightarrow> vtable_chain vtables p qs \<Longrightarrow> ps = qs"
proof (induction arbitrary: qs rule: vtable_chain.induct)
  case chain_null
  then show ?case by (auto elim: vtable_chain.cases)
next
  case (chain_step p ps)
  from chain_step.prems chain_step.hyps(1) obtain qs' where
    "qs = p # qs'" "vtable_chain vtables (super (vtables p)) qs'"
    by (auto elim: vtable_chain.cases)
  with chain_step.IH show ?case by simp
qed

lemma chain_from_member:
  "vtable_chain vtables p ps \<Longrightarrow> d \<in> set ps
    \<Longrightarrow> \<exists>pre rest. ps = pre @ d # rest \<and> vtable_chain vtables (super (vtables d)) rest"
proof (induction rule: vtable_chain.induct)
  case chain_null
  then show ?case by simp
next
  case (chain_step p ps)
  show ?case
  proof (cases "d = p")
    case True
    with chain_step.hyps
    have "p # ps = [] @ d # ps \<and> vtable_chain vtables (super (vtables d)) ps"
      by simp
    then show ?thesis by blast
  next
    case False
    with chain_step.prems have "d \<in> set ps" by simp
    then obtain pre rest where "ps = pre @ d # rest"
      "vtable_chain vtables (super (vtables d)) rest"
      using chain_step.IH by blast
    then have "p # ps = (p # pre) @ d # rest
        \<and> vtable_chain vtables (super (vtables d)) rest"
      by simp
    then show ?thesis by blast
  qed
qed

text \<open>
  A descriptor with the same parent as \<open>d1\<close> cannot lie on the chain of \<open>d1\<close>: the
  chain of the common parent would contain itself as a proper suffix.
\<close>

lemma sibling_not_in_chain:
  assumes "vtable_chain vtables d1 ps"
    and "super (vtables d1) = super (vtables d2)" and "d1 \<noteq> d2"
  shows "d2 \<notin> set ps"
proof
  assume mem: "d2 \<in> set ps"
  from assms(1) mem have "d1 \<noteq> NULL" by (auto elim: vtable_chain.cases)
  with assms(1) obtain ps' where ps: "ps = d1 # ps'"
    and tail: "vtable_chain vtables (super (vtables d1)) ps'"
    by (auto elim: vtable_chain.cases)
  from mem ps assms(3) have "d2 \<in> set ps'" by simp
  with tail obtain pre rest where split: "ps' = pre @ d2 # rest"
    and rest: "vtable_chain vtables (super (vtables d2)) rest"
    using chain_from_member by blast
  from tail rest assms(2) have "ps' = rest"
    by (simp add: chain_unique)
  with split show False by simp
qed

lemma chain_head:
  assumes "vtable_chain vtables p ps" and "ps \<noteq> []"
  shows "p \<in> set ps"
  using assms by (auto elim: vtable_chain.cases)

text \<open>
  Claim C7. Let the descriptor chain of a handle be finite (the list \<open>ps\<close>) and end at
  the root descriptor \<open>R\<close>. Then \<open>mk_type_is_kind_of\<close> returns true for \<open>R\<close>, returns
  true for the handle's own tag, and returns false for every descriptor \<open>D2\<close> that is
  distinct from the tag and has the same parent as the tag.
\<close>

theorem mk_type_is_kind_of_chain_laws:
  assumes "vtable_chain vtables (vtable mk) ps" and "ps \<noteq> []" and "last ps = R"
  shows "mk_type_is_kind_of vtables mk R = Some True
    \<and> mk_type_is_kind_of vtables mk (vtable mk) = Some True
    \<and> (super (vtables (vtable mk)) = super (vtables D2) \<and> vtable mk \<noteq> D2
        \<longrightarrow> mk_type_is_kind_of vtables mk D2 = Some False)"
proof (intro conjI impI)
  from assms(2,3) have "R \<in> set ps" by auto
  then show "mk_type_is_kind_of vtables mk R = Some True"
    by (simp add: mk_type_is_kind_of_def is_kind_of_loop_chain [OF assms(1)])
next
  from assms(1,2) have "vtable mk \<in> set ps" by (rule chain_head)
  then show "mk_type_is_kind_of vtables mk (vtable mk) = Some True"
    by (simp add: mk_type_is_kind_of_def is_kind_of_loop_chain [OF assms(1)])
next
  assume "super (vtables (vtable mk)) = super (vtables D2) \<and> vtable mk \<noteq> D2"
  with assms(1) have "D2 \<notin> set ps"
    by (simp add: sibling_not_in_chain)
  then show "mk_type_is_kind_of vtables mk D2 = Some False"
    by (simp add: mk_type_is_kind_of_def is_kind_of_loop_chain [OF assms(1)])
qed

theorem mk_type_is_kind_of_chain_laws_witness:
  "vtable_chain example_vtables (vtable \<lparr>vtable = 2\<rparr>) [2, 1]
   \<and> example_vtables 1 = mk_type_class
   \<and> super (example_vtables (vtable \<lparr>vtable = 2\<rparr>)) = super (example_vtables 3)
   \<and> mk_type_is_kind_of example_vtables \<lparr>vtable = 2\<rparr> 1 = Some True
   \<and> mk_type_is_kind_of example_vtables \<lparr>vtable = 2\<rparr> 2 = Some True
   \<and> mk_type_is_kind_of example_vtables \<lparr>vtable = 2\<rparr> 3 = Some False"
proof -
  have root: "example_vtables 1 = mk_type_class"
    by (simp add: example_vtables_def)
  have s1: "super (example_vtables 1) = NULL"
    by (simp add: example_vtables_def mk_type_class_def)
  have s2: "super (example_vtables 2) = 1"
    by (simp add: example_vtables_def)
  have n1: "(1 :: nat) \<noteq> NULL" and n2: "(2 :: nat) \<noteq> NULL"
    by (simp_all add: NULL_def)
  have c0: "vtable_chain example_vtables (super (example_vtables 1)) []"
    unfolding s1 by (rule chain_null)
  have c1: "vtable_chain example_vtables 1 [1]"
    using n1 c0 by (rule chain_step)
  have "vtable_chain example_vtables (super (example_vtables 2)) [1]"
    unfolding s2 by (rule c1)
  with n2 have "vtable_chain example_vtables 2 [2, 1]"
    by (rule chain_step)
  then have c2: "vtable_chain example_vtables (vtable \<lparr>vtable = 2\<rparr>) [2, 1]"
    by simp
  have sib: "super (example_vtables (vtable \<lparr>vtable = 2\<rparr>)) = super (example_vtables 3)
      \<and> vtable \<lparr>vtable = 2\<rparr> \<noteq> (3 :: nat)"
    by (simp add: example_vtables_def)
  have ne: "[2, 1 :: nat] \<noteq> []" and lst: "last [2, 1 :: nat] = 1"
    by simp_all
  from mk_type_is_kind_of_chain_laws [OF c2 ne lst, of 3] sib root c2
  show ?thesis by simp
qed

end
